theory Spec2Isabelle
  imports Main
begin

section \<open>Data model of ConstantFlowAgreementV1Helper.js\<close>

text \<open>
  Account and token identifiers are JavaScript strings. A numeric ledger value (the
  \<^verbatim>\<open>BN\<close> objects of \<^verbatim>\<open>flowRate\<close>, \<^verbatim>\<open>deposit\<close>, \<^verbatim>\<open>timestamp\<close>) is an unbounded integer.
\<close>

type_synonym address = string
type_synonym token = string

text \<open>The \<^verbatim>\<open>args\<close> object of a \<^verbatim>\<open>FlowUpdated\<close> event, as far as the helper reads it.\<close>

record flow_args =
  token :: token
  sender :: address
  receiver :: address
  flowRate :: int

text \<open>
  One entry of the event log. \<^verbatim>\<open>blockNumber\<close> and \<^verbatim>\<open>logIndex\<close> are the fields every log
  entry carries; the helper never reads them.
\<close>

record event =
  args :: flow_args
  blockNumber :: nat
  logIndex :: nat

text \<open>An entry of \<^verbatim>\<open>inFlows\<close> / \<^verbatim>\<open>outFlows\<close>: the object literal built in \<^verbatim>\<open>listFlows\<close>.\<close>

record flow =
  flow_sender :: address
  flow_receiver :: address
  flow_flowRate :: string

text \<open>
  The object returned by \<^verbatim>\<open>listFlows\<close>. A property that was never assigned is
  \<open>None\<close>; an assigned one is \<open>Some\<close> of its array.
\<close>

record flow_listing =
  inFlows :: "flow list option"
  outFlows :: "flow list option"

text \<open>The raw answer of \<^verbatim>\<open>cfa.getFlow\<close> and the sanitized object \<^verbatim>\<open>getFlow\<close> returns.\<close>

record raw_flow =
  raw_timestamp :: int
  raw_flowRate :: int
  raw_deposit :: int
  raw_owedDeposit :: int

datatype js_date = Date int | InvalidDate

record flow_info =
  info_timestamp :: js_date
  info_flowRate :: string
  info_deposit :: string
  info_owedDeposit :: string

text \<open>A rejected promise of a collaborator; an \<^verbatim>\<open>await\<close> on it throws out of the method.\<close>

datatype error = UpstreamFailure string

text \<open>The options object handed to \<^verbatim>\<open>getPastEvents("FlowUpdated", ...)\<close>.\<close>

datatype block_ref = BlockNumber nat | Latest

record event_query =
  eventName :: string
  fromBlock :: block_ref
  toBlock :: block_ref
  filter_token :: token
  filter_sender :: "address option"
  filter_receiver :: "address option"

text \<open>The method of the agreement contract whose ABI encoding is sent to the host.\<close>

datatype call_data =
  CreateFlow token address int string
  | UpdateFlow token address int string
  | DeleteFlow token address address string

record ledger_call =
  agreement :: address
  callData :: call_data
  call_from :: address

text \<open>
  The collaborators reached through \<^verbatim>\<open>this._sf\<close> and \<^verbatim>\<open>this._cfa\<close>. None of them is
  defined in this file of the repository, so each is a parameter of the model; each is
  asynchronous and may reject.
\<close>

record 'tx framework =
  normalizeTokenParam :: "string \<Rightarrow> error + token"
  normalizeAddressParam :: "string \<Rightarrow> error + address"
  cfa_address :: address
  callAgreement :: "ledger_call \<Rightarrow> error + 'tx"
  cfa_getFlow :: "token \<Rightarrow> address \<Rightarrow> address \<Rightarrow> error + raw_flow"
  getPastEvents :: "event_query \<Rightarrow> error + event list"

section \<open>JavaScript primitives the helper relies on\<close>

text \<open>\<^verbatim>\<open>await p\<close> followed by the rest of the method: a rejection leaves the method.\<close>

definition await :: "error + 'a \<Rightarrow> ('a \<Rightarrow> error + 'b) \<Rightarrow> error + 'b" where
  "await p k = (case p of Inl e \<Rightarrow> Inl e | Inr x \<Rightarrow> k x)"

text \<open>
  Truthiness of an optional boolean parameter (\<open>None\<close> is \<^verbatim>\<open>undefined\<close>) and of a string
  (only the empty string is falsy).
\<close>

definition truthy :: "bool option \<Rightarrow> bool" where
  "truthy b = (case b of None \<Rightarrow> False | Some v \<Rightarrow> v)"

definition truthy_string :: "string \<Rightarrow> bool" where
  "truthy_string s = (s \<noteq> [])"

text \<open>
  \<^verbatim>\<open>BN.prototype.toString()\<close>: the decimal digits, with a leading minus sign when negative.
  \<open>digit\<close> is the character of a digit below ten; \<open>digits\<close> asks for no other.
\<close>

definition digit :: "nat \<Rightarrow> char" where
  "digit d = ''0123456789'' ! d"

fun digits :: "nat \<Rightarrow> string" where
  "digits n = (if n < 10 then [digit n] else digits (n div 10) @ [digit (n mod 10)])"

definition toString :: "int \<Rightarrow> string" where
  "toString i = (if i < 0 then CHR ''-'' # digits (nat (- i)) else digits (nat i))"

text \<open>
  \<^verbatim>\<open>Number(s)\<close> on the decimal string of an integer: the value of its digits, negated
  after a minus sign. The helper applies it to the output of \<^verbatim>\<open>toString\<close> only.
\<close>

definition digit_value :: "char \<Rightarrow> nat" where
  "digit_value c = of_char c - 48"

definition digits_value :: "string \<Rightarrow> nat" where
  "digits_value s = foldl (\<lambda>n c. 10 * n + digit_value c) 0 s"

definition Number :: "string \<Rightarrow> int" where
  "Number s = (case s of [] \<Rightarrow> 0
               | c # cs \<Rightarrow> if c = CHR ''-'' then - int (digits_value cs) else int (digits_value s))"

text \<open>
  A plain object used as a dictionary: its own properties in creation order. Assigning
  to an existing property keeps its place, assigning to a new one appends it. That is
  the order \<^verbatim>\<open>Object.values\<close> enumerates in for keys that are not array indices, and
  every key built by the helper contains a colon, so none is an array index.
\<close>

type_synonym 'v js_object = "(string \<times> 'v) list"

fun obj_set :: "'v js_object \<Rightarrow> string \<Rightarrow> 'v \<Rightarrow> 'v js_object" where
  "obj_set [] k v = [(k, v)]"
| "obj_set ((k', v') # ps) k v =
     (if k' = k then (k', v) # ps else (k', v') # obj_set ps k v)"

definition obj_get :: "'v js_object \<Rightarrow> string \<Rightarrow> 'v option" where
  "obj_get obj k = map_of obj k"

definition Object_values :: "'v js_object \<Rightarrow> 'v list" where
  "Object_values obj = map snd obj"

text \<open>
  \<^verbatim>\<open>new Date(v)\<close> for a time value in milliseconds since the epoch. The time value is
  clipped: beyond 8.64e15 milliseconds the date is invalid. The helper passes
  \<^verbatim>\<open>Number(s) * 1000\<close> for the decimal string of an integer. Doubles hold every integer
  up to \<open>2^53 > 8.64e15\<close> exactly and rounding is monotone, so the conversion and the
  product are exact wherever the date is valid and stay beyond the limit elsewhere:
  integer arithmetic gives the same date.
\<close>

definition newDate :: "int \<Rightarrow> js_date" where
  "newDate tv = (if \<bar>tv\<bar> \<le> 8640000000000000 then Date tv else InvalidDate)"

section \<open>The reconciler: getLatestFlows\<close>

text \<open>The dictionary key of an event: \<^verbatim>\<open>i.args.sender + ":" + i.args.receiver\<close>.\<close>

definition flowKey :: "event \<Rightarrow> string" where
  "flowKey i = sender (args i) @ '':'' @ receiver (args i)"

text \<open>The pair of accounts a key stands for, and identifiers without a colon.\<close>

definition flowPair :: "event \<Rightarrow> address \<times> address" where
  "flowPair i = (sender (args i), receiver (args i))"

definition colon_free :: "event \<Rightarrow> bool" where
  "colon_free i = (CHR '':'' \<notin> set (sender (args i)) \<and> CHR '':'' \<notin> set (receiver (args i)))"

text \<open>The \<^verbatim>\<open>reduce\<close> call: every event is stored under its key, starting from \<^verbatim>\<open>{}\<close>.\<close>

definition reduceFlows :: "event list \<Rightarrow> event js_object" where
  "reduceFlows flows = foldl (\<lambda>acc i. obj_set acc (flowKey i) i) [] flows"

definition getLatestFlows :: "event list \<Rightarrow> event list" where
  "getLatestFlows flows =
     filter (\<lambda>i. toString (flowRate (args i)) \<noteq> ''0'') (Object_values (reduceFlows flows))"

text \<open>The event the reduction holds for a key once the whole batch is folded in.\<close>

definition winning :: "event list \<Rightarrow> string \<Rightarrow> event option" where
  "winning flows k = obj_get (reduceFlows flows) k"

text \<open>
  Modelled from the spec: the total-order position of an event, which the source never
  compares. It is the block number, with the index inside the block breaking ties.
\<close>

definition pos_less :: "event \<Rightarrow> event \<Rightarrow> bool" where
  "pos_less a b =
     (blockNumber a < blockNumber b \<or> (blockNumber a = blockNumber b \<and> logIndex a < logIndex b))"

text \<open>Modelled from the spec: a position that is not greater, in that total order.\<close>

definition pos_le :: "event \<Rightarrow> event \<Rightarrow> bool" where
  "pos_le a b = (\<not> pos_less b a)"

text \<open>
  Modelled from the spec: a batch in log order, every event at a strictly greater
  position than the ones listed before it.
\<close>

definition ascending :: "event list \<Rightarrow> bool" where
  "ascending flows = sorted_wrt pos_less flows"

text \<open>
  Modelled from the spec: the notation of its examples, \<open>(A\<rightarrow>B, rate, pos)\<close>: an event
  of token \<open>T\<close> whose position is the block number \<open>p\<close>.
\<close>

definition ev :: "address \<Rightarrow> address \<Rightarrow> int \<Rightarrow> nat \<Rightarrow> event" where
  "ev s r fr p =
     \<lparr>args = \<lparr>token = ''T'', sender = s, receiver = r, flowRate = fr\<rparr>,
      blockNumber = p, logIndex = 0\<rparr>"

text \<open>
  The same method with the mutation of the accumulator explicit. The heap is the list
  of the dictionary objects allocated so far, an address is an index into it. The
  literal \<^verbatim>\<open>{}\<close> allocates a new empty object, the callback of \<^verbatim>\<open>reduce\<close> assigns one
  property of it per event, and \<^verbatim>\<open>Object.values\<close> reads it back.
\<close>

type_synonym heap = "event js_object list"

definition new_object :: "heap \<Rightarrow> nat \<times> heap" where
  "new_object h = (length h, h @ [[]])"

definition put_prop :: "heap \<Rightarrow> nat \<Rightarrow> string \<Rightarrow> event \<Rightarrow> heap" where
  "put_prop h a k v = h[a := obj_set (h ! a) k v]"

definition getLatestFlows_heap :: "heap \<Rightarrow> event list \<Rightarrow> event list \<times> heap" where
  "getLatestFlows_heap h flows =
     (let (acc, h1) = new_object h;
          h2 = foldl (\<lambda>hp i. put_prop hp acc (flowKey i) i) h1 flows
      in (filter (\<lambda>i. toString (flowRate (args i)) \<noteq> ''0'') (Object_values (h2 ! acc)), h2))"

section \<open>listFlows\<close>

text \<open>The projection applied to every latest event: the arrow function given to \<^verbatim>\<open>map\<close>.\<close>

definition toFlow :: "event \<Rightarrow> flow" where
  "toFlow f =
     \<lparr>flow_sender = sender (args f), flow_receiver = receiver (args f),
      flow_flowRate = toString (flowRate (args f))\<rparr>"

definition inQuery :: "token \<Rightarrow> address \<Rightarrow> event_query" where
  "inQuery superTokenNorm accountNorm =
     \<lparr>eventName = ''FlowUpdated'', fromBlock = BlockNumber 0, toBlock = Latest,
      filter_token = superTokenNorm, filter_sender = None, filter_receiver = Some accountNorm\<rparr>"

definition outQuery :: "token \<Rightarrow> address \<Rightarrow> event_query" where
  "outQuery superTokenNorm accountNorm =
     \<lparr>eventName = ''FlowUpdated'', fromBlock = BlockNumber 0, toBlock = Latest,
      filter_token = superTokenNorm, filter_sender = Some accountNorm, filter_receiver = None\<rparr>"

definition listFlows ::
  "'tx framework \<Rightarrow> string \<Rightarrow> string \<Rightarrow> bool option \<Rightarrow> bool option \<Rightarrow> error + flow_listing" where
  "listFlows sf superToken account onlyInFlows onlyOutFlows =
     await (normalizeTokenParam sf superToken) (\<lambda>superTokenNorm.
     await (normalizeAddressParam sf account) (\<lambda>accountNorm.
     await (if \<not> truthy onlyOutFlows
            then await (getPastEvents sf (inQuery superTokenNorm accountNorm)) (\<lambda>evs.
                   Inr \<lparr>inFlows = Some (map toFlow (getLatestFlows evs)), outFlows = None\<rparr>)
            else Inr \<lparr>inFlows = None, outFlows = None\<rparr>) (\<lambda>result.
     if \<not> truthy onlyInFlows
     then await (getPastEvents sf (outQuery superTokenNorm accountNorm)) (\<lambda>evs.
            Inr (result\<lparr>outFlows := Some (map toFlow (getLatestFlows evs))\<rparr>))
     else Inr result)))"

text \<open>
  Modelled from the spec: the log fetch \<^verbatim>\<open>getPastEvents\<close>, which is not part of this
  file. It answers a query with the events of the whole log that match the token and
  the given role, in log order.
\<close>

definition matches :: "event_query \<Rightarrow> event \<Rightarrow> bool" where
  "matches q e =
     (token (args e) = filter_token q
      \<and> (case filter_sender q of None \<Rightarrow> True | Some s \<Rightarrow> sender (args e) = s)
      \<and> (case filter_receiver q of None \<Rightarrow> True | Some r \<Rightarrow> receiver (args e) = r))"

definition logGateway :: "event list \<Rightarrow> event_query \<Rightarrow> error + event list" where
  "logGateway log q = Inr (filter (matches q) log)"

section \<open>deleteFlow and getFlow\<close>

text \<open>
  \<^verbatim>\<open>(by && await normalizeAddressParam(by)) || senderNorm\<close>: the normalizer runs only for a
  truthy \<^verbatim>\<open>by\<close>, and a falsy outcome of either operand falls through to the sender.
  The calls of \<^verbatim>\<open>console.debug\<close> only log and are left out.
\<close>

definition byNorm :: "'tx framework \<Rightarrow> string option \<Rightarrow> address \<Rightarrow> error + address" where
  "byNorm sf byParam senderNorm =
     (case byParam of
        None \<Rightarrow> Inr senderNorm
      | Some b \<Rightarrow>
          if truthy_string b
          then await (normalizeAddressParam sf b) (\<lambda>n.
                 Inr (if truthy_string n then n else senderNorm))
          else Inr senderNorm)"

definition deleteFlow ::
  "'tx framework \<Rightarrow> string \<Rightarrow> string \<Rightarrow> string \<Rightarrow> string option \<Rightarrow> error + 'tx" where
  "deleteFlow sf superToken senderParam receiverParam byParam =
     await (normalizeTokenParam sf superToken) (\<lambda>superTokenNorm.
     await (normalizeAddressParam sf senderParam) (\<lambda>senderNorm.
     await (normalizeAddressParam sf receiverParam) (\<lambda>receiverNorm.
     await (byNorm sf byParam senderNorm) (\<lambda>byN.
     callAgreement sf
       \<lparr>agreement = cfa_address sf,
        callData = DeleteFlow superTokenNorm senderNorm receiverNorm ''0x'',
        call_from = byN\<rparr>))))"

text \<open>The arrow function commented \<^verbatim>\<open>sanitize result\<close>.\<close>

definition sanitize :: "raw_flow \<Rightarrow> flow_info" where
  "sanitize r =
     \<lparr>info_timestamp = newDate (Number (toString (raw_timestamp r)) * 1000),
      info_flowRate = toString (raw_flowRate r),
      info_deposit = toString (raw_deposit r),
      info_owedDeposit = toString (raw_owedDeposit r)\<rparr>"

definition getFlow :: "'tx framework \<Rightarrow> string \<Rightarrow> string \<Rightarrow> string \<Rightarrow> error + flow_info" where
  "getFlow sf superToken senderParam receiverParam =
     await (normalizeTokenParam sf superToken) (\<lambda>superTokenNorm.
     await (normalizeAddressParam sf senderParam) (\<lambda>senderNorm.
     await (normalizeAddressParam sf receiverParam) (\<lambda>receiverNorm.
     await (cfa_getFlow sf superTokenNorm senderNorm receiverNorm) (\<lambda>result.
     Inr (sanitize result)))))"

text \<open>
  A framework whose normalizers return their argument, whose host hands the call back
  as its transaction, and whose log fetch reads the given log.
\<close>

definition echoFramework :: "event list \<Rightarrow> raw_flow \<Rightarrow> ledger_call framework" where
  "echoFramework log r =
     \<lparr>normalizeTokenParam = Inr, normalizeAddressParam = Inr, cfa_address = ''cfa'',
      callAgreement = Inr, cfa_getFlow = (\<lambda>t s rc. Inr r), getPastEvents = logGateway log\<rparr>"

definition noFlow :: raw_flow where
  "noFlow = \<lparr>raw_timestamp = 0, raw_flowRate = 0, raw_deposit = 0, raw_owedDeposit = 0\<rparr>"

section \<open>Decimal strings\<close>

declare digits.simps [simp del]

lemma digit_cases: "d < 10 \<Longrightarrow> d \<in> {0, 1, 2, 3, 4, 5, 6, 7, 8, 9 :: nat}"
  by auto

lemma digits_not_Nil: "digits n \<noteq> []"
  by (subst digits.simps) simp

lemma digit_zero_iff: "d < 10 \<Longrightarrow> digit d = CHR ''0'' \<longleftrightarrow> d = 0"
  using digit_cases [of d] by (auto simp: digit_def)

lemma digit_value_digit: "d < 10 \<Longrightarrow> digit_value (digit d) = d"
  using digit_cases [of d] by (auto simp: digit_def digit_value_def)

lemma digit_not_minus: "d < 10 \<Longrightarrow> digit d \<noteq> CHR ''-''"
  using digit_cases [of d] by (auto simp: digit_def)

lemma digits_zero_iff: "digits n = ''0'' \<longleftrightarrow> n = 0"
proof (cases "n < 10")
  case True
  then show ?thesis by (subst digits.simps) (simp add: digit_zero_iff)
next
  case False
  have "length (digits n) = length (digits (n div 10)) + 1"
    using False by (subst digits.simps) simp
  moreover have "length (digits (n div 10)) > 0" using digits_not_Nil by blast
  ultimately have "length (digits n) \<noteq> 1" by simp
  then have "digits n \<noteq> ''0''" by auto
  with False show ?thesis by auto
qed

lemma toString_zero_iff: "toString i = ''0'' \<longleftrightarrow> i = 0"
  by (auto simp: toString_def digits_zero_iff)

lemma digits_value_snoc: "digits_value (s @ [c]) = 10 * digits_value s + digit_value c"
  by (simp add: digits_value_def)

lemma digits_value_digits: "digits_value (digits n) = n"
proof (induction n rule: digits.induct)
  case (1 n)
  show ?case
  proof (cases "n < 10")
    case True
    then show ?thesis by (subst digits.simps) (simp add: digits_value_def digit_value_digit)
  next
    case False
    then have "digits_value (digits n)
        = 10 * digits_value (digits (n div 10)) + digit_value (digit (n mod 10))"
      by (subst digits.simps) (simp add: digits_value_snoc)
    also have "\<dots> = 10 * (n div 10) + n mod 10"
      using False "1.IH" by (simp add: digit_value_digit)
    finally show ?thesis by simp
  qed
qed

lemma hd_digits: "hd (digits n) \<noteq> CHR ''-''"
proof (induction n rule: digits.induct)
  case (1 n)
  show ?case
  proof (cases "n < 10")
    case True
    then show ?thesis by (subst digits.simps) (simp add: digit_not_minus)
  next
    case False
    then have "hd (digits n) = hd (digits (n div 10))"
      by (subst digits.simps) (simp add: digits_not_Nil)
    with False "1.IH" show ?thesis by simp
  qed
qed

text \<open>Reading back the decimal string of an integer gives the integer.\<close>

lemma Number_toString: "Number (toString i) = i"
proof (cases "i < 0")
  case True
  then show ?thesis by (simp add: Number_def toString_def digits_value_digits)
next
  case False
  obtain c cs where d: "digits (nat i) = c # cs"
    using digits_not_Nil by (cases "digits (nat i)") auto
  with hd_digits [of "nat i"] have "c \<noteq> CHR ''-''" by simp
  with d False digits_value_digits [of "nat i"] show ?thesis
    by (simp add: Number_def toString_def)
qed

section \<open>The dictionary built by the reduction\<close>

lemma map_of_obj_set: "map_of (obj_set obj k v) = (map_of obj)(k \<mapsto> v)"
  by (induction obj k v rule: obj_set.induct) (auto simp: fun_eq_iff)

lemma keys_obj_set:
  "map fst (obj_set obj k v) = (if k \<in> fst ` set obj then map fst obj else map fst obj @ [k])"
  by (induction obj k v rule: obj_set.induct) auto

lemma distinct_obj_set: "distinct (map fst obj) \<Longrightarrow> distinct (map fst (obj_set obj k v))"
  by (simp add: keys_obj_set)

lemma reduceFlows_Nil: "reduceFlows [] = []"
  by (simp add: reduceFlows_def)

lemma reduceFlows_snoc: "reduceFlows (flows @ [e]) = obj_set (reduceFlows flows) (flowKey e) e"
  by (simp add: reduceFlows_def)

lemma distinct_reduceFlows: "distinct (map fst (reduceFlows flows))"
  by (induction flows rule: rev_induct)
    (simp_all add: reduceFlows_Nil reduceFlows_snoc distinct_obj_set)

lemma winning_Nil: "winning [] k = None"
  by (simp add: winning_def obj_get_def reduceFlows_Nil)

text \<open>The last event written under a key is the one the dictionary holds.\<close>

lemma winning_snoc:
  "winning (flows @ [e]) k = (if k = flowKey e then Some e else winning flows k)"
  by (simp add: winning_def obj_get_def reduceFlows_snoc map_of_obj_set)

lemma winning_SomeD: "winning flows k = Some e \<Longrightarrow> e \<in> set flows \<and> flowKey e = k"
  by (induction flows rule: rev_induct) (auto simp: winning_Nil winning_snoc split: if_splits)

lemma winning_exists: "e \<in> set flows \<Longrightarrow> \<exists>w. winning flows (flowKey e) = Some w"
  by (induction flows rule: rev_induct) (auto simp: winning_snoc)

lemma set_reduceFlows: "(k, e) \<in> set (reduceFlows flows) \<longleftrightarrow> winning flows k = Some e"
  by (simp add: winning_def obj_get_def distinct_reduceFlows)

lemma keys_reduceFlows: "(k, e) \<in> set (reduceFlows flows) \<Longrightarrow> flowKey e = k"
  using set_reduceFlows winning_SomeD by blast

text \<open>The output holds exactly the winning events whose rate is not zero.\<close>

lemma set_getLatestFlows:
  "e \<in> set (getLatestFlows flows)
   \<longleftrightarrow> winning flows (flowKey e) = Some e \<and> flowRate (args e) \<noteq> 0"
proof -
  have "e \<in> snd ` set (reduceFlows flows) \<longleftrightarrow> winning flows (flowKey e) = Some e"
  proof
    assume "e \<in> snd ` set (reduceFlows flows)"
    then obtain k where k: "(k, e) \<in> set (reduceFlows flows)" by auto
    then have "flowKey e = k" by (rule keys_reduceFlows)
    with k show "winning flows (flowKey e) = Some e" by (simp add: set_reduceFlows)
  next
    assume "winning flows (flowKey e) = Some e"
    then have "(flowKey e, e) \<in> set (reduceFlows flows)" by (simp add: set_reduceFlows)
    then show "e \<in> snd ` set (reduceFlows flows)" by force
  qed
  then show ?thesis
    by (auto simp: getLatestFlows_def Object_values_def toString_zero_iff)
qed

lemma map_flowKey_values:
  "map flowKey (Object_values (reduceFlows flows)) = map fst (reduceFlows flows)"
  by (auto simp: Object_values_def keys_reduceFlows)

lemma distinct_keys_getLatestFlows: "distinct (map flowKey (getLatestFlows flows))"
proof -
  have "distinct (map flowKey (Object_values (reduceFlows flows)))"
    by (simp add: map_flowKey_values distinct_reduceFlows)
  then show ?thesis unfolding getLatestFlows_def by (rule distinct_map_filter)
qed

lemma ev_simps:
  "flowKey (ev s r fr p) = s @ '':'' @ r" "flowRate (args (ev s r fr p)) = fr"
  "sender (args (ev s r fr p)) = s" "receiver (args (ev s r fr p)) = r"
  "token (args (ev s r fr p)) = ''T''"
  "blockNumber (ev s r fr p) = p" "logIndex (ev s r fr p) = 0"
  by (simp_all add: ev_def flowKey_def)

section \<open>Keys and pairs\<close>

lemma colon_split:
  "CHR '':'' \<notin> set s1 \<Longrightarrow> CHR '':'' \<notin> set s2 \<Longrightarrow> s1 @ CHR '':'' # r1 = s2 @ CHR '':'' # r2
   \<Longrightarrow> s1 = s2 \<and> r1 = r2"
proof (induction s1 arbitrary: s2)
  case Nil
  then show ?case by (cases s2) auto
next
  case (Cons a s1)
  then show ?case by (cases s2) auto
qed

lemma flowKey_eq_iff:
  "colon_free a \<Longrightarrow> colon_free b \<Longrightarrow> flowKey a = flowKey b \<longleftrightarrow> flowPair a = flowPair b"
  using colon_split [of "sender (args a)" "sender (args b)" "receiver (args a)" "receiver (args b)"]
  by (auto simp: flowKey_def flowPair_def colon_free_def)

lemma flowPair_flowKey: "flowPair a = flowPair b \<Longrightarrow> flowKey a = flowKey b"
  by (simp add: flowKey_def flowPair_def)

section \<open>Batches in log order\<close>

lemma ascending_snoc:
  "ascending (flows @ [x]) \<longleftrightarrow> ascending flows \<and> (\<forall>y\<in>set flows. pos_less y x)"
  by (auto simp: ascending_def sorted_wrt_append)

lemma winning_latest:
  "ascending flows \<Longrightarrow> winning flows k = Some w \<Longrightarrow> e \<in> set flows \<Longrightarrow> flowKey e = k
   \<Longrightarrow> e = w \<or> pos_less e w"
proof (induction flows rule: rev_induct)
  case Nil
  then show ?case by simp
next
  case (snoc x xs)
  from snoc.prems(1) have asc: "ascending xs" and below: "\<forall>y\<in>set xs. pos_less y x"
    by (simp_all add: ascending_snoc)
  show ?case
  proof (cases "k = flowKey x")
    case True
    with snoc.prems(2) have "w = x" by (simp add: winning_snoc)
    with snoc.prems(3) below show ?thesis by auto
  next
    case False
    with snoc.prems(2) have w: "winning xs k = Some w" by (simp add: winning_snoc)
    from False snoc.prems(3,4) have "e \<in> set xs" by auto
    with snoc.IH asc w snoc.prems(4) show ?thesis by blast
  qed
qed

text \<open>In log order the winner of a key is its event of greatest position, and only that one.\<close>

lemma winning_is_top:
  "ascending flows \<Longrightarrow> winning flows (flowKey e) = Some e \<Longrightarrow> e' \<in> set flows
   \<Longrightarrow> flowKey e' = flowKey e \<Longrightarrow> pos_le e' e"
  using winning_latest [of flows "flowKey e" e e'] by (auto simp: pos_le_def pos_less_def)

lemma top_is_winning:
  assumes "ascending flows" and e: "e \<in> set flows"
    and top: "\<forall>e'\<in>set flows. flowKey e' = flowKey e \<longrightarrow> pos_le e' e"
  shows "winning flows (flowKey e) = Some e"
proof -
  from winning_exists [OF e] obtain w where w: "winning flows (flowKey e) = Some w" by blast
  then have "w \<in> set flows" "flowKey w = flowKey e" using winning_SomeD by blast+
  with top have "pos_le w e" by blast
  moreover from winning_latest [OF assms(1) w e] have "e = w \<or> pos_less e w" by simp
  ultimately have "e = w" by (auto simp: pos_le_def)
  with w show ?thesis by simp
qed

section \<open>Last write wins\<close>

text \<open>
  Claim C1, as amended. For every batch given in ascending order of position, every
  entry of the output of \<open>getLatestFlows\<close> is an event of the batch whose position is
  the greatest among the batch's events sharing its key, and every event of the batch
  that has the greatest position among those sharing its key and a rate other than
  zero is in the output. The key is the string \<open>sender:receiver\<close>; it stands for the
  pair (sender, receiver) whenever no identifier contains a colon. Nothing is said
  about a batch in another order.
\<close>

theorem last_write_wins_in_log_order:
  assumes "ascending flows"
  shows "(\<forall>e\<in>set (getLatestFlows flows).
            e \<in> set flows \<and> (\<forall>e'\<in>set flows. flowKey e' = flowKey e \<longrightarrow> pos_le e' e))
       \<and> (\<forall>e\<in>set flows.
            flowRate (args e) \<noteq> 0 \<and> (\<forall>e'\<in>set flows. flowKey e' = flowKey e \<longrightarrow> pos_le e' e)
            \<longrightarrow> e \<in> set (getLatestFlows flows))
       \<and> (\<forall>a b. colon_free a \<and> colon_free b
            \<longrightarrow> (flowKey a = flowKey b \<longleftrightarrow> flowPair a = flowPair b))"
proof (intro conjI ballI impI allI)
  fix e assume "e \<in> set (getLatestFlows flows)"
  then have "winning flows (flowKey e) = Some e" by (simp add: set_getLatestFlows)
  then show "e \<in> set flows" using winning_SomeD by blast
next
  fix e e' assume "e \<in> set (getLatestFlows flows)"
    and e': "e' \<in> set flows" "flowKey e' = flowKey e"
  then have w: "winning flows (flowKey e) = Some e" by (simp add: set_getLatestFlows)
  from winning_is_top [OF assms w e'] show "pos_le e' e" .
next
  fix e assume e: "e \<in> set flows"
    and top: "flowRate (args e) \<noteq> 0
      \<and> (\<forall>e'\<in>set flows. flowKey e' = flowKey e \<longrightarrow> pos_le e' e)"
  then have "winning flows (flowKey e) = Some e" using top_is_winning [OF assms e] by blast
  with top show "e \<in> set (getLatestFlows flows)" by (simp add: set_getLatestFlows)
next
  fix a b assume "colon_free a \<and> colon_free b"
  then show "flowKey a = flowKey b \<longleftrightarrow> flowPair a = flowPair b"
    by (simp add: flowKey_eq_iff)
qed

text \<open>
  The example of the specification, in log order: position 3 wins and the flow is open.
\<close>

theorem last_write_wins_in_log_order_witness:
  "ascending [ev ''A'' ''B'' 5 1, ev ''A'' ''B'' 0 2, ev ''A'' ''B'' 3 3]
   \<and> getLatestFlows [ev ''A'' ''B'' 5 1, ev ''A'' ''B'' 0 2, ev ''A'' ''B'' 3 3]
       = [ev ''A'' ''B'' 3 3]
   \<and> pos_le (ev ''A'' ''B'' 5 1) (ev ''A'' ''B'' 3 3)
   \<and> pos_le (ev ''A'' ''B'' 0 2) (ev ''A'' ''B'' 3 3)"
proof -
  have asc: "ascending [ev ''A'' ''B'' 5 1, ev ''A'' ''B'' 0 2, ev ''A'' ''B'' 3 3]"
    by (simp add: ascending_def pos_less_def ev_simps)
  have out: "getLatestFlows [ev ''A'' ''B'' 5 1, ev ''A'' ''B'' 0 2, ev ''A'' ''B'' 3 3]
      = [ev ''A'' ''B'' 3 3]"
    by (simp add: getLatestFlows_def reduceFlows_def Object_values_def ev_simps
        toString_zero_iff)
  have keys: "flowKey (ev ''A'' ''B'' 5 1) = flowKey (ev ''A'' ''B'' 3 3)"
    "flowKey (ev ''A'' ''B'' 0 2) = flowKey (ev ''A'' ''B'' 3 3)"
    by (simp_all add: ev_simps)
  from last_write_wins_in_log_order [OF asc] out
  have "\<forall>e'\<in>set [ev ''A'' ''B'' 5 1, ev ''A'' ''B'' 0 2, ev ''A'' ''B'' 3 3].
      flowKey e' = flowKey (ev ''A'' ''B'' 3 3) \<longrightarrow> pos_le e' (ev ''A'' ''B'' 3 3)"
    by simp
  with keys asc out show ?thesis by simp
qed

text \<open>
  Claim C1 as stated fails: with the batch listed latest first, the output for the key
  of A and B is the event of position 1, not the one of position 2, and it differs from
  the output for the same two events listed in log order.
\<close>

theorem last_write_wins_counterexample:
  "getLatestFlows [ev ''A'' ''B'' 3 2, ev ''A'' ''B'' 5 1] = [ev ''A'' ''B'' 5 1]
   \<and> pos_less (ev ''A'' ''B'' 5 1) (ev ''A'' ''B'' 3 2)
   \<and> flowKey (ev ''A'' ''B'' 5 1) = flowKey (ev ''A'' ''B'' 3 2)
   \<and> getLatestFlows [ev ''A'' ''B'' 5 1, ev ''A'' ''B'' 3 2] = [ev ''A'' ''B'' 3 2]
   \<and> getLatestFlows [ev ''A'' ''B'' 5 1, ev ''A'' ''B'' 3 2]
       \<noteq> getLatestFlows [ev ''A'' ''B'' 3 2, ev ''A'' ''B'' 5 1]"
  by (simp add: getLatestFlows_def reduceFlows_def Object_values_def ev_simps toString_zero_iff
      pos_less_def) (simp add: ev_def)

section \<open>Running the helper against a framework\<close>

lemma await_Inr [simp]: "await (Inr x) k = k x"
  by (simp add: await_def)

lemma await_Inl [simp]: "await (Inl e) k = Inl e"
  by (simp add: await_def)

lemma await_eq_Inr: "await p k = Inr y \<longleftrightarrow> (\<exists>x. p = Inr x \<and> k x = Inr y)"
  by (cases p) simp_all

lemma listFlows_normalized:
  assumes "normalizeTokenParam sf superToken = Inr t" "normalizeAddressParam sf account = Inr a"
  shows "listFlows sf superToken account oi oo =
     await (if truthy oo then Inr None
            else await (getPastEvents sf (inQuery t a)) (\<lambda>evs. Inr (Some (map toFlow (getLatestFlows evs)))))
       (\<lambda>ins. await (if truthy oi then Inr None
            else await (getPastEvents sf (outQuery t a)) (\<lambda>evs. Inr (Some (map toFlow (getLatestFlows evs)))))
       (\<lambda>outs. Inr \<lparr>inFlows = ins, outFlows = outs\<rparr>))"
  using assms by (cases "getPastEvents sf (inQuery t a)"; cases "getPastEvents sf (outQuery t a)")
    (simp_all add: listFlows_def)

lemma listFlows_InrD:
  assumes "listFlows sf superToken account oi oo = Inr res"
  shows "\<exists>t a. normalizeTokenParam sf superToken = Inr t \<and> normalizeAddressParam sf account = Inr a
     \<and> (if truthy oo then inFlows res = None
         else \<exists>evs. getPastEvents sf (inQuery t a) = Inr evs
                \<and> inFlows res = Some (map toFlow (getLatestFlows evs)))
     \<and> (if truthy oi then outFlows res = None
         else \<exists>evs. getPastEvents sf (outQuery t a) = Inr evs
                \<and> outFlows res = Some (map toFlow (getLatestFlows evs)))"
proof -
  from assms obtain t where t: "normalizeTokenParam sf superToken = Inr t"
    by (cases "normalizeTokenParam sf superToken") (simp_all add: listFlows_def)
  from assms t obtain a where a: "normalizeAddressParam sf account = Inr a"
    by (cases "normalizeAddressParam sf account") (simp_all add: listFlows_def)
  from assms have "await (if truthy oo then Inr None
            else await (getPastEvents sf (inQuery t a)) (\<lambda>evs. Inr (Some (map toFlow (getLatestFlows evs)))))
       (\<lambda>ins. await (if truthy oi then Inr None
            else await (getPastEvents sf (outQuery t a)) (\<lambda>evs. Inr (Some (map toFlow (getLatestFlows evs)))))
       (\<lambda>outs. Inr \<lparr>inFlows = ins, outFlows = outs\<rparr>)) = Inr res"
    by (simp add: listFlows_normalized [OF t a])
  then have "(if truthy oo then inFlows res = None
         else \<exists>evs. getPastEvents sf (inQuery t a) = Inr evs
                \<and> inFlows res = Some (map toFlow (getLatestFlows evs)))
     \<and> (if truthy oi then outFlows res = None
         else \<exists>evs. getPastEvents sf (outQuery t a) = Inr evs
                \<and> outFlows res = Some (map toFlow (getLatestFlows evs)))"
    by (auto simp: await_eq_Inr split: if_splits)
  with t a show ?thesis by blast
qed



lemma echoFramework_simps:
  "normalizeTokenParam (echoFramework log r) = Inr"
  "normalizeAddressParam (echoFramework log r) = Inr"
  "cfa_address (echoFramework log r) = ''cfa''"
  "callAgreement (echoFramework log r) = Inr"
  "cfa_getFlow (echoFramework log r) t s rc = Inr r"
  "getPastEvents (echoFramework log r) = logGateway log"
  by (simp_all add: echoFramework_def)

lemma getLatestFlows_Nil: "getLatestFlows [] = []"
  by (simp add: getLatestFlows_def reduceFlows_def Object_values_def)



lemma distinct_map_flowPair: "distinct (map flowKey xs) \<Longrightarrow> distinct (map flowPair xs)"
  by (induction xs) (auto dest: flowPair_flowKey)

lemma pairs_of_flows: "map (\<lambda>f. (flow_sender f, flow_receiver f)) (map toFlow xs) = map flowPair xs"
  by (simp add: toFlow_def flowPair_def)

lemma distinct_pairs_listing:
  "distinct (map (\<lambda>f. (flow_sender f, flow_receiver f)) (map toFlow (getLatestFlows flows)))"
  unfolding pairs_of_flows by (rule distinct_map_flowPair) (rule distinct_keys_getLatestFlows)

lemma inQuery_simps:
  "filter_token (inQuery t a) = t" "filter_sender (inQuery t a) = None"
  "filter_receiver (inQuery t a) = Some a"
  by (simp_all add: inQuery_def)

lemma outQuery_simps:
  "filter_token (outQuery t a) = t" "filter_sender (outQuery t a) = Some a"
  "filter_receiver (outQuery t a) = None"
  by (simp_all add: outQuery_def)

lemmas run_simps = echoFramework_simps logGateway_def matches_def inQuery_simps outQuery_simps
  ev_simps getLatestFlows_def reduceFlows_def Object_values_def toString_zero_iff

lemma toFlow_ev: "toFlow (ev s r fr p) = \<lparr>flow_sender = s, flow_receiver = r, flow_flowRate = toString fr\<rparr>"
  by (simp add: toFlow_def ev_simps)

lemma small_strings:
  "toString 1 = ''1''" "toString 2 = ''2''" "toString 5 = ''5''" "toString 7 = ''7''"
  by (simp_all add: toString_def digits.simps digit_def)







section \<open>Closure exclusion\<close>

text \<open>
  Claim C2, as amended. For every batch, no entry of the output of \<open>getLatestFlows\<close>
  has a zero rate, neither as a number nor as the string the listing shows, and a key
  is absent from the output when the event the reduction holds for it, the last one
  listed for the key, has rate zero. For every batch given in ascending order of
  position, a key whose latest event, the one of greatest position among those
  sharing the key, has rate zero is absent from the output. Nothing is said about the
  latest event of a key in a batch in another order.
\<close>

theorem closure_exclusion:
  "(\<forall>e\<in>set (getLatestFlows flows). flowRate (args e) \<noteq> 0 \<and> toString (flowRate (args e)) \<noteq> ''0'')
   \<and> (\<forall>k w. winning flows k = Some w \<and> flowRate (args w) = 0
          \<longrightarrow> k \<notin> flowKey ` set (getLatestFlows flows))
   \<and> (\<forall>f\<in>set (map toFlow (getLatestFlows flows)). flow_flowRate f \<noteq> ''0'')
   \<and> (ascending flows \<longrightarrow>
        (\<forall>e\<in>set flows. flowRate (args e) = 0
              \<and> (\<forall>e'\<in>set flows. flowKey e' = flowKey e \<longrightarrow> pos_le e' e)
           \<longrightarrow> flowKey e \<notin> flowKey ` set (getLatestFlows flows)))"
proof -
  have absent: "k \<notin> flowKey ` set (getLatestFlows flows)"
    if "winning flows k = Some w" "flowRate (args w) = 0" for k w
  proof
    assume "k \<in> flowKey ` set (getLatestFlows flows)"
    then obtain e where "e \<in> set (getLatestFlows flows)" "flowKey e = k" by auto
    then have "winning flows k = Some e" "flowRate (args e) \<noteq> 0"
      by (auto simp: set_getLatestFlows)
    with that show False by simp
  qed
  show ?thesis
  proof (intro conjI ballI allI impI)
    fix e assume "e \<in> set (getLatestFlows flows)"
    then show "flowRate (args e) \<noteq> 0" "toString (flowRate (args e)) \<noteq> ''0''"
      by (simp_all add: set_getLatestFlows toString_zero_iff)
  next
    fix k w assume "winning flows k = Some w \<and> flowRate (args w) = 0"
    then show "k \<notin> flowKey ` set (getLatestFlows flows)" using absent by blast
  next
    fix f assume "f \<in> set (map toFlow (getLatestFlows flows))"
    then show "flow_flowRate f \<noteq> ''0''"
      by (auto simp: toFlow_def set_getLatestFlows toString_zero_iff)
  next
    fix e assume asc: "ascending flows" and e: "e \<in> set flows"
      and top: "flowRate (args e) = 0
        \<and> (\<forall>e'\<in>set flows. flowKey e' = flowKey e \<longrightarrow> pos_le e' e)"
    then have "winning flows (flowKey e) = Some e" using top_is_winning [OF asc e] by blast
    with top show "flowKey e \<notin> flowKey ` set (getLatestFlows flows)" using absent by blast
  qed
qed

text \<open>
  The example of the specification, in log order: the flow from A to B is closed at
  position 2, the latest event of its key.
\<close>

theorem closure_exclusion_witness:
  "ascending [ev ''A'' ''B'' 5 1, ev ''A'' ''B'' 0 2]
   \<and> winning [ev ''A'' ''B'' 5 1, ev ''A'' ''B'' 0 2] ''A:B'' = Some (ev ''A'' ''B'' 0 2)
   \<and> flowRate (args (ev ''A'' ''B'' 0 2)) = 0
   \<and> pos_le (ev ''A'' ''B'' 5 1) (ev ''A'' ''B'' 0 2)
   \<and> flowKey (ev ''A'' ''B'' 0 2) \<notin> flowKey ` set (getLatestFlows [ev ''A'' ''B'' 5 1, ev ''A'' ''B'' 0 2])
   \<and> getLatestFlows [ev ''A'' ''B'' 5 1, ev ''A'' ''B'' 0 2] = []"
proof -
  let ?flows = "[ev ''A'' ''B'' 5 1, ev ''A'' ''B'' 0 2]"
  have asc: "ascending ?flows"
    by (simp add: ascending_def pos_less_def ev_simps)
  have w: "winning ?flows ''A:B'' = Some (ev ''A'' ''B'' 0 2)"
    by (simp add: winning_def obj_get_def reduceFlows_def ev_simps)
  have z: "flowRate (args (ev ''A'' ''B'' 0 2)) = 0" by (simp add: ev_simps)
  have le: "pos_le (ev ''A'' ''B'' 5 1) (ev ''A'' ''B'' 0 2)"
    "pos_le (ev ''A'' ''B'' 0 2) (ev ''A'' ''B'' 0 2)"
    by (simp_all add: pos_le_def pos_less_def ev_simps)
  have out: "getLatestFlows ?flows = []"
    by (simp add: run_simps)
  have top: "\<forall>e'\<in>set ?flows. flowKey e' = flowKey (ev ''A'' ''B'' 0 2)
      \<longrightarrow> pos_le e' (ev ''A'' ''B'' 0 2)"
    using le by simp
  have mem: "ev ''A'' ''B'' 0 2 \<in> set ?flows" by simp
  from closure_exclusion [of ?flows] asc mem z top
  have "flowKey (ev ''A'' ''B'' 0 2) \<notin> flowKey ` set (getLatestFlows ?flows)" by blast
  with asc w z le(1) out show ?thesis by blast
qed

text \<open>
  Claim C2 as stated fails: with the closing event of position 3 listed before the
  update of position 2, the latest event of the key of A and B has rate zero, yet the
  key is in the output, at rate 5.
\<close>

theorem closure_exclusion_counterexample:
  "pos_less (ev ''A'' ''B'' 5 2) (ev ''A'' ''B'' 0 3)
   \<and> flowKey (ev ''A'' ''B'' 5 2) = flowKey (ev ''A'' ''B'' 0 3)
   \<and> flowRate (args (ev ''A'' ''B'' 0 3)) = 0
   \<and> getLatestFlows [ev ''A'' ''B'' 0 3, ev ''A'' ''B'' 5 2] = [ev ''A'' ''B'' 5 2]
   \<and> flowKey (ev ''A'' ''B'' 0 3)
       \<in> flowKey ` set (getLatestFlows [ev ''A'' ''B'' 0 3, ev ''A'' ''B'' 5 2])"
proof -
  have out: "getLatestFlows [ev ''A'' ''B'' 0 3, ev ''A'' ''B'' 5 2] = [ev ''A'' ''B'' 5 2]"
    by (simp add: run_simps)
  have "pos_less (ev ''A'' ''B'' 5 2) (ev ''A'' ''B'' 0 3)"
    "flowKey (ev ''A'' ''B'' 5 2) = flowKey (ev ''A'' ''B'' 0 3)"
    "flowRate (args (ev ''A'' ''B'' 0 3)) = 0"
    by (simp_all add: pos_less_def ev_simps)
  with out show ?thesis by simp
qed

section \<open>Direction partition\<close>



section \<open>Requested and suppressed directions\<close>

text \<open>
  Claim C4. Whenever \<open>listFlows\<close> returns for a request of the inbound direction only,
  the returned object has no \<open>outFlows\<close> property, and for a request of the outbound
  direction only it has no \<open>inFlows\<close> property. It does return, with the requested
  field set, as soon as the two normalizers and the one fetch it makes succeed.
\<close>

theorem mode_suppression:
  "(\<forall>res. listFlows sf superToken account (Some True) oo = Inr res \<longrightarrow> outFlows res = None)
   \<and> (\<forall>res. listFlows sf superToken account oi (Some True) = Inr res \<longrightarrow> inFlows res = None)
   \<and> (\<forall>t a evs. normalizeTokenParam sf superToken = Inr t \<and> normalizeAddressParam sf account = Inr a
          \<and> \<not> truthy oo \<and> getPastEvents sf (inQuery t a) = Inr evs
        \<longrightarrow> listFlows sf superToken account (Some True) oo
              = Inr \<lparr>inFlows = Some (map toFlow (getLatestFlows evs)), outFlows = None\<rparr>)
   \<and> (\<forall>t a evs. normalizeTokenParam sf superToken = Inr t \<and> normalizeAddressParam sf account = Inr a
          \<and> \<not> truthy oi \<and> getPastEvents sf (outQuery t a) = Inr evs
        \<longrightarrow> listFlows sf superToken account oi (Some True)
              = Inr \<lparr>inFlows = None, outFlows = Some (map toFlow (getLatestFlows evs))\<rparr>)"
proof (intro conjI allI impI)
  fix res assume "listFlows sf superToken account (Some True) oo = Inr res"
  from listFlows_InrD [OF this] show "outFlows res = None" by (auto simp: truthy_def)
next
  fix res assume "listFlows sf superToken account oi (Some True) = Inr res"
  from listFlows_InrD [OF this] show "inFlows res = None" by (auto simp: truthy_def)
next
  fix t a evs
  assume "normalizeTokenParam sf superToken = Inr t \<and> normalizeAddressParam sf account = Inr a
          \<and> \<not> truthy oo \<and> getPastEvents sf (inQuery t a) = Inr evs"
  then show "listFlows sf superToken account (Some True) oo
              = Inr \<lparr>inFlows = Some (map toFlow (getLatestFlows evs)), outFlows = None\<rparr>"
    by (simp add: listFlows_normalized truthy_def)
next
  fix t a evs
  assume "normalizeTokenParam sf superToken = Inr t \<and> normalizeAddressParam sf account = Inr a
          \<and> \<not> truthy oi \<and> getPastEvents sf (outQuery t a) = Inr evs"
  then show "listFlows sf superToken account oi (Some True)
              = Inr \<lparr>inFlows = None, outFlows = Some (map toFlow (getLatestFlows evs))\<rparr>"
    by (simp add: listFlows_normalized truthy_def)
qed

text \<open>The same log listed for A inbound only, then outbound only.\<close>

theorem mode_suppression_witness:
  "listFlows (echoFramework [ev ''A'' ''A'' 5 1, ev ''B'' ''A'' 2 2, ev ''A'' ''C'' 1 3] noFlow)
       ''T'' ''A'' (Some True) None
     = Inr \<lparr>inFlows = Some [\<lparr>flow_sender = ''A'', flow_receiver = ''A'', flow_flowRate = ''5''\<rparr>,
                             \<lparr>flow_sender = ''B'', flow_receiver = ''A'', flow_flowRate = ''2''\<rparr>],
            outFlows = None\<rparr>
   \<and> listFlows (echoFramework [ev ''A'' ''A'' 5 1, ev ''B'' ''A'' 2 2, ev ''A'' ''C'' 1 3] noFlow)
       ''T'' ''A'' None (Some True)
     = Inr \<lparr>inFlows = None,
            outFlows = Some [\<lparr>flow_sender = ''A'', flow_receiver = ''A'', flow_flowRate = ''5''\<rparr>,
                             \<lparr>flow_sender = ''A'', flow_receiver = ''C'', flow_flowRate = ''1''\<rparr>]\<rparr>"
proof -
  let ?sf = "echoFramework [ev ''A'' ''A'' 5 1, ev ''B'' ''A'' 2 2, ev ''A'' ''C'' 1 3] noFlow"
  let ?inB = "[ev ''A'' ''A'' 5 1, ev ''B'' ''A'' 2 2]"
  let ?outB = "[ev ''A'' ''A'' 5 1, ev ''A'' ''C'' 1 3]"
  have t: "normalizeTokenParam ?sf ''T'' = Inr ''T''"
    and a: "normalizeAddressParam ?sf ''A'' = Inr ''A''"
    by (simp_all add: echoFramework_simps)
  have inB: "getPastEvents ?sf (inQuery ''T'' ''A'') = Inr ?inB"
    and outB: "getPastEvents ?sf (outQuery ''T'' ''A'') = Inr ?outB"
    by (simp_all add: run_simps)
  have ins: "map toFlow (getLatestFlows ?inB)
      = [\<lparr>flow_sender = ''A'', flow_receiver = ''A'', flow_flowRate = ''5''\<rparr>,
         \<lparr>flow_sender = ''B'', flow_receiver = ''A'', flow_flowRate = ''2''\<rparr>]"
    by (simp add: run_simps toFlow_ev small_strings)
  have outs: "map toFlow (getLatestFlows ?outB)
      = [\<lparr>flow_sender = ''A'', flow_receiver = ''A'', flow_flowRate = ''5''\<rparr>,
         \<lparr>flow_sender = ''A'', flow_receiver = ''C'', flow_flowRate = ''1''\<rparr>]"
    by (simp add: run_simps toFlow_ev small_strings)
  have f: "\<not> truthy None" by (simp add: truthy_def)
  from mode_suppression [of ?sf "''T''" "''A''" None None] t a inB outB f
  have "listFlows ?sf ''T'' ''A'' (Some True) None
          = Inr \<lparr>inFlows = Some (map toFlow (getLatestFlows ?inB)), outFlows = None\<rparr>"
    and "listFlows ?sf ''T'' ''A'' None (Some True)
          = Inr \<lparr>inFlows = None, outFlows = Some (map toFlow (getLatestFlows ?outB))\<rparr>"
    by blast+
  with ins outs show ?thesis by simp
qed

text \<open>
  Claim C5. For a requested direction whose fetched batch is empty, \<open>listFlows\<close>
  returns an object whose field for that direction is present and holds the empty
  sequence, provided the fetch of the other direction, if requested, succeeds.
\<close>

theorem empty_batch_listing:
  assumes "normalizeTokenParam sf superToken = Inr t" "normalizeAddressParam sf account = Inr a"
  shows "(\<not> truthy oo \<and> getPastEvents sf (inQuery t a) = Inr []
            \<and> (truthy oi \<or> (\<exists>evs. getPastEvents sf (outQuery t a) = Inr evs))
          \<longrightarrow> (\<exists>res. listFlows sf superToken account oi oo = Inr res \<and> inFlows res = Some []))
       \<and> (\<not> truthy oi \<and> getPastEvents sf (outQuery t a) = Inr []
            \<and> (truthy oo \<or> (\<exists>evs. getPastEvents sf (inQuery t a) = Inr evs))
          \<longrightarrow> (\<exists>res. listFlows sf superToken account oi oo = Inr res \<and> outFlows res = Some []))"
  by (auto simp: listFlows_normalized [OF assms] getLatestFlows_Nil)

text \<open>An empty log, both directions requested.\<close>

theorem empty_batch_listing_witness:
  "listFlows (echoFramework [] noFlow) ''T'' ''A'' None None
     = Inr \<lparr>inFlows = Some [], outFlows = Some []\<rparr>"
proof -
  let ?sf = "echoFramework [] noFlow"
  have t: "normalizeTokenParam ?sf ''T'' = Inr ''T''"
    and a: "normalizeAddressParam ?sf ''A'' = Inr ''A''"
    by (simp_all add: echoFramework_simps)
  have inB: "getPastEvents ?sf (inQuery ''T'' ''A'') = Inr []"
    and outB: "getPastEvents ?sf (outQuery ''T'' ''A'') = Inr []"
    by (simp_all add: echoFramework_simps logGateway_def)
  have f: "\<not> truthy None" by (simp add: truthy_def)
  from empty_batch_listing [OF t a, of None None] inB outB f
  obtain res res' where "listFlows ?sf ''T'' ''A'' None None = Inr res" "inFlows res = Some []"
    "listFlows ?sf ''T'' ''A'' None None = Inr res'" "outFlows res' = Some []"
    by blast
  then have "listFlows ?sf ''T'' ''A'' None None = Inr res"
    "inFlows res = Some []" "outFlows res = Some []" by simp_all
  then show ?thesis by (cases res) simp
qed

text \<open>
  Claim C9. With \<open>onlyInFlows\<close> and \<open>onlyOutFlows\<close> both true, \<open>listFlows\<close> makes no
  fetch and returns the object with neither field, without an error, whenever the
  two normalizers succeed.
\<close>

theorem both_only_flags:
  assumes "normalizeTokenParam sf superToken = Inr t" "normalizeAddressParam sf account = Inr a"
  shows "listFlows sf superToken account (Some True) (Some True)
         = Inr \<lparr>inFlows = None, outFlows = None\<rparr>"
  by (simp add: listFlows_normalized [OF assms] truthy_def)

text \<open>It does so even when every fetch would fail.\<close>

theorem both_only_flags_witness:
  "listFlows ((echoFramework [] noFlow)\<lparr>getPastEvents := \<lambda>q. Inl (UpstreamFailure ''unreachable'')\<rparr>)
       ''T'' ''A'' (Some True) (Some True)
     = Inr \<lparr>inFlows = None, outFlows = None\<rparr>"
proof -
  let ?sf = "(echoFramework [] noFlow)\<lparr>getPastEvents := \<lambda>q. Inl (UpstreamFailure ''unreachable'')\<rparr>"
  have t: "normalizeTokenParam ?sf ''T'' = Inr ''T''"
    and a: "normalizeAddressParam ?sf ''A'' = Inr ''A''"
    by (simp_all add: echoFramework_def)
  from both_only_flags [OF t a] show ?thesis .
qed

section \<open>One entry per key\<close>

text \<open>
  Claim C10. The output of \<open>getLatestFlows\<close> has at most one entry per key, the key
  being the sender, a colon and the receiver. Hence each of the sequences \<open>inFlows\<close>
  and \<open>outFlows\<close> of a returned listing has at most one entry per pair of sender and
  receiver. Where no identifier contains a colon, two events have the same key exactly
  when they have the same pair.
\<close>

theorem one_entry_per_key:
  "distinct (map flowKey (getLatestFlows flows))
   \<and> (\<forall>res fs. listFlows sf superToken account oi oo = Inr res
         \<and> (inFlows res = Some fs \<or> outFlows res = Some fs)
        \<longrightarrow> distinct (map (\<lambda>f. (flow_sender f, flow_receiver f)) fs))
   \<and> (\<forall>a b. colon_free a \<and> colon_free b
        \<longrightarrow> (flowKey a = flowKey b \<longleftrightarrow> flowPair a = flowPair b))"
proof (intro conjI allI impI)
  show "distinct (map flowKey (getLatestFlows flows))" by (rule distinct_keys_getLatestFlows)
next
  fix res fs
  assume h: "listFlows sf superToken account oi oo = Inr res
         \<and> (inFlows res = Some fs \<or> outFlows res = Some fs)"
  then have "listFlows sf superToken account oi oo = Inr res" by simp
  from listFlows_InrD [OF this] h
  have "\<exists>evs. fs = map toFlow (getLatestFlows evs)" by (auto split: if_splits)
  then show "distinct (map (\<lambda>f. (flow_sender f, flow_receiver f)) fs)"
    using distinct_pairs_listing by blast
next
  fix a b assume "colon_free a \<and> colon_free b"
  then show "flowKey a = flowKey b \<longleftrightarrow> flowPair a = flowPair b" by (simp add: flowKey_eq_iff)
qed

text \<open>Two updates of the flow from A to B and one from C to B, listed inbound for B.\<close>

theorem one_entry_per_key_witness:
  "listFlows (echoFramework [ev ''A'' ''B'' 5 1, ev ''C'' ''B'' 2 2, ev ''A'' ''B'' 7 3] noFlow)
       ''T'' ''B'' (Some True) None
     = Inr \<lparr>inFlows = Some [\<lparr>flow_sender = ''A'', flow_receiver = ''B'', flow_flowRate = ''7''\<rparr>,
                             \<lparr>flow_sender = ''C'', flow_receiver = ''B'', flow_flowRate = ''2''\<rparr>],
            outFlows = None\<rparr>
   \<and> distinct (map (\<lambda>f. (flow_sender f, flow_receiver f))
        [\<lparr>flow_sender = ''A'', flow_receiver = ''B'', flow_flowRate = ''7''\<rparr>,
         \<lparr>flow_sender = ''C'', flow_receiver = ''B'', flow_flowRate = ''2''\<rparr>])"
proof -
  let ?sf = "echoFramework [ev ''A'' ''B'' 5 1, ev ''C'' ''B'' 2 2, ev ''A'' ''B'' 7 3] noFlow"
  let ?fs = "[\<lparr>flow_sender = ''A'', flow_receiver = ''B'', flow_flowRate = ''7''\<rparr>,
         \<lparr>flow_sender = ''C'', flow_receiver = ''B'', flow_flowRate = ''2''\<rparr>]"
  have run: "listFlows ?sf ''T'' ''B'' (Some True) None = Inr \<lparr>inFlows = Some ?fs, outFlows = None\<rparr>"
    by (simp add: listFlows_def truthy_def run_simps toFlow_ev small_strings)
  have "inFlows \<lparr>inFlows = Some ?fs, outFlows = None\<rparr> = Some ?fs" by simp
  with one_entry_per_key [of "[]" ?sf "''T''" "''B''" "Some True" None] run
  have "distinct (map (\<lambda>f. (flow_sender f, flow_receiver f)) ?fs)" by blast
  with run show ?thesis by blast
qed

section \<open>deleteFlow\<close>

lemma byNorm_omitted: "byNorm sf None s = Inr s"
  by (simp add: byNorm_def)

lemma byNorm_supplied:
  "b \<noteq> [] \<Longrightarrow> normalizeAddressParam sf b = Inr n \<Longrightarrow> n \<noteq> [] \<Longrightarrow> byNorm sf (Some b) s = Inr n"
  by (simp add: byNorm_def truthy_string_def)

text \<open>
  Claim C6. Let the token, the sender and the receiver normalize. When \<open>by\<close> is
  omitted, \<open>deleteFlow\<close> is the call of the host with the normalized sender as acting
  identity. When \<open>by\<close> is supplied, a string that is not empty and normalizes to an
  address that is not empty, it is the call of the host with that normalized value as
  acting identity.
\<close>

theorem deleteFlow_acting_identity:
  assumes "normalizeTokenParam sf superToken = Inr t"
    and "normalizeAddressParam sf senderParam = Inr s"
    and "normalizeAddressParam sf receiverParam = Inr r"
  shows "deleteFlow sf superToken senderParam receiverParam None
         = callAgreement sf \<lparr>agreement = cfa_address sf, callData = DeleteFlow t s r ''0x'',
                             call_from = s\<rparr>
       \<and> (\<forall>b n. b \<noteq> [] \<and> normalizeAddressParam sf b = Inr n \<and> n \<noteq> []
            \<longrightarrow> deleteFlow sf superToken senderParam receiverParam (Some b)
                = callAgreement sf \<lparr>agreement = cfa_address sf,
                                    callData = DeleteFlow t s r ''0x'', call_from = n\<rparr>)"
  using assms by (simp add: deleteFlow_def byNorm_omitted byNorm_supplied)

text \<open>A host that hands the call back shows the call that was issued.\<close>

theorem deleteFlow_acting_identity_witness:
  "deleteFlow (echoFramework [] noFlow) ''T'' ''A'' ''B'' None
     = Inr \<lparr>agreement = ''cfa'', callData = DeleteFlow ''T'' ''A'' ''B'' ''0x'', call_from = ''A''\<rparr>
   \<and> deleteFlow (echoFramework [] noFlow) ''T'' ''A'' ''B'' (Some ''L'')
     = Inr \<lparr>agreement = ''cfa'', callData = DeleteFlow ''T'' ''A'' ''B'' ''0x'', call_from = ''L''\<rparr>"
proof -
  have n: "normalizeTokenParam (echoFramework [] noFlow) ''T'' = Inr ''T''"
    "normalizeAddressParam (echoFramework [] noFlow) ''A'' = Inr ''A''"
    "normalizeAddressParam (echoFramework [] noFlow) ''B'' = Inr ''B''"
    "normalizeAddressParam (echoFramework [] noFlow) ''L'' = Inr ''L''"
    by (simp_all add: echoFramework_simps)
  from deleteFlow_acting_identity [OF n(1) n(2) n(3)] n(4) show ?thesis
    by (simp add: echoFramework_simps)
qed

section \<open>getFlow\<close>

lemma newDate_in_range: "0 \<le> ts \<Longrightarrow> ts \<le> 8640000000000 \<Longrightarrow> newDate (ts * 1000) = Date (ts * 1000)"
  by (simp add: newDate_def)

text \<open>
  Claim C7. Let the parameters normalize and the agreement answer with a raw result.
  Then \<open>getFlow\<close> returns the object whose timestamp is the date of 1000 times the raw
  timestamp in milliseconds, which is the instant that many seconds after the epoch
  for every timestamp a date can hold, and whose other three fields are the decimal
  strings of the raw values: reading each string back gives the raw value. Nothing
  else is in the object.
\<close>

theorem getFlow_shapes_result:
  assumes "normalizeTokenParam sf superToken = Inr t"
    and "normalizeAddressParam sf senderParam = Inr s"
    and "normalizeAddressParam sf receiverParam = Inr r"
    and "cfa_getFlow sf t s r = Inr raw"
  shows "getFlow sf superToken senderParam receiverParam
         = Inr \<lparr>info_timestamp = newDate (raw_timestamp raw * 1000),
                info_flowRate = toString (raw_flowRate raw),
                info_deposit = toString (raw_deposit raw),
                info_owedDeposit = toString (raw_owedDeposit raw)\<rparr>
       \<and> (0 \<le> raw_timestamp raw \<and> raw_timestamp raw \<le> 8640000000000
            \<longrightarrow> (\<exists>info. getFlow sf superToken senderParam receiverParam = Inr info
                   \<and> info_timestamp info = Date (raw_timestamp raw * 1000)))
       \<and> Number (info_flowRate (sanitize raw)) = raw_flowRate raw
       \<and> Number (info_deposit (sanitize raw)) = raw_deposit raw
       \<and> Number (info_owedDeposit (sanitize raw)) = raw_owedDeposit raw"
  using assms by (simp add: getFlow_def sanitize_def Number_toString newDate_in_range)

text \<open>A flow last updated 1600000000 seconds after the epoch.\<close>

theorem getFlow_shapes_result_witness:
  "getFlow (echoFramework [] \<lparr>raw_timestamp = 1600000000, raw_flowRate = 385802469135802,
       raw_deposit = 0, raw_owedDeposit = 12\<rparr>) ''T'' ''A'' ''B''
   = Inr \<lparr>info_timestamp = Date 1600000000000, info_flowRate = ''385802469135802'',
          info_deposit = ''0'', info_owedDeposit = ''12''\<rparr>"
proof -
  let ?raw = "\<lparr>raw_timestamp = 1600000000, raw_flowRate = 385802469135802,
       raw_deposit = 0, raw_owedDeposit = 12\<rparr>"
  have n: "normalizeTokenParam (echoFramework [] ?raw) ''T'' = Inr ''T''"
    "normalizeAddressParam (echoFramework [] ?raw) ''A'' = Inr ''A''"
    "normalizeAddressParam (echoFramework [] ?raw) ''B'' = Inr ''B''"
    "cfa_getFlow (echoFramework [] ?raw) ''T'' ''A'' ''B'' = Inr ?raw"
    by (simp_all add: echoFramework_simps)
  have d: "toString 385802469135802 = ''385802469135802''" "toString 0 = ''0''" "toString 12 = ''12''"
    by (simp_all add: toString_def digits.simps digit_def)
  from getFlow_shapes_result [OF n] d show ?thesis
    by (simp add: newDate_def)
qed

section \<open>Determinism of the reconciliation\<close>

lemma heap_fold:
  "foldl (\<lambda>hp i. put_prop hp (length h) (flowKey i) i) (h @ [obj]) flows
   = h @ [foldl (\<lambda>acc i. obj_set acc (flowKey i) i) obj flows]"
  by (induction flows arbitrary: obj) (simp_all add: put_prop_def)

text \<open>On any heap the method returns the functional output and only allocates its own object.\<close>

lemma getLatestFlows_heap_eq:
  "getLatestFlows_heap h flows = (getLatestFlows flows, h @ [reduceFlows flows])"
  by (simp add: getLatestFlows_heap_def new_object_def heap_fold getLatestFlows_def
      reduceFlows_def)

text \<open>
  Claim C8. The output of the reconciliation is the same on every heap it is started on;
  a second run on the same batch, started on the heap the first run left behind, gives
  the output of the first; the output is a function of the batch alone; and a run
  leaves every object that existed before it unchanged.
\<close>

theorem reconciliation_deterministic:
  "fst (getLatestFlows_heap h flows) = fst (getLatestFlows_heap h' flows)
   \<and> fst (getLatestFlows_heap (snd (getLatestFlows_heap h flows)) flows)
       = fst (getLatestFlows_heap h flows)
   \<and> fst (getLatestFlows_heap h flows) = getLatestFlows flows
   \<and> take (length h) (snd (getLatestFlows_heap h flows)) = h"
  by (simp add: getLatestFlows_heap_eq)

end
